theory Spec2Isabelle
  imports Main "HOL-Library.Word"
begin

section \<open>The VotingSystem contract\<close>

text \<open>
  The ledger core of the repository is the Solidity contract \<open>VotingSystem\<close> with its
  interface \<open>IVotingSystem\<close>. An \<open>address\<close> is a 160-bit word and a \<open>uint256\<close> a
  256-bit word. A Solidity \<open>string\<close> is a byte sequence, and \<open>bytes(name).length\<close> counts
  its bytes, so a name is a \<open>string\<close> of HOL (a list of 8-bit characters).
\<close>

type_synonym address = "160 word"
type_synonym uint256 = "256 word"

text \<open>\<open>struct Candidate { string name; uint256 voteCount; }\<close>\<close>

record Candidate =
  name :: string
  voteCount :: uint256

text \<open>
  The custom errors of the interface. \<open>Panic\<close> is the built-in error of checked
  arithmetic (code \<open>0x11\<close> on overflow), which \<open>voteCount++\<close> raises under
  \<open>pragma solidity ^0.8.28\<close>.
\<close>

datatype error =
    Unauthorized
  | EmptyCandidateName
  | AlreadyVoted
  | InvalidCandidateIndex uint256
  | NoCandidates
  | Panic uint256

datatype event =
    CandidateAdded uint256 string
  | VoteCast address uint256

text \<open>
  The storage of the contract: the immutable \<open>admin\<close>, the dynamic array \<open>candidates\<close>
  and the two mappings, which are total (an absent key reads as \<open>false\<close> or \<open>0\<close>).
\<close>

record VotingSystem =
  admin :: address
  candidates :: "Candidate list"
  hasVoted :: "address \<Rightarrow> bool"
  voterToCandidate :: "address \<Rightarrow> uint256"

text \<open>
  A function body runs on the storage and ends either with its events or with a revert.
  The outcome carries the storage as the body left it; \<open>call\<close> is the transaction around
  the body, which restores the storage of before when the body reverted.
\<close>

type_synonym outcome = "(error + event) \<times> VotingSystem"

definition call :: "(VotingSystem \<Rightarrow> outcome) \<Rightarrow> VotingSystem \<Rightarrow> outcome" where
  "call body s = (case body s of (Inl e, _) \<Rightarrow> (Inl e, s) | (Inr ev, s') \<Rightarrow> (Inr ev, s'))"

text \<open>\<open>constructor() { admin = msg.sender; }\<close>\<close>

definition constructor :: "address \<Rightarrow> VotingSystem" where
  "constructor sender =
     \<lparr>admin = sender, candidates = [], hasVoted = (\<lambda>_. False), voterToCandidate = (\<lambda>_. 0)\<rparr>"

text \<open>\<open>modifier onlyAdmin() { if (msg.sender != admin) revert Unauthorized(); _; }\<close>\<close>

definition onlyAdmin :: "address \<Rightarrow> (VotingSystem \<Rightarrow> outcome) \<Rightarrow> VotingSystem \<Rightarrow> outcome" where
  "onlyAdmin sender body s = (if sender \<noteq> admin s then (Inl Unauthorized, s) else body s)"

text \<open>
  The body of \<open>addCandidate\<close> under the modifier: the emptiness check, the push and the
  event, whose index is \<open>candidates.length - 1\<close> read after the push.
\<close>

definition addCandidate_body :: "string \<Rightarrow> VotingSystem \<Rightarrow> outcome" where
  "addCandidate_body nm s =
     (if length nm = 0 then (Inl EmptyCandidateName, s)
      else
        let s1 = s\<lparr>candidates := candidates s @ [\<lparr>name = nm, voteCount = 0\<rparr>]\<rparr>
        in (Inr (CandidateAdded (of_nat (length (candidates s1) - 1)) nm), s1))"

definition addCandidate :: "address \<Rightarrow> string \<Rightarrow> VotingSystem \<Rightarrow> outcome" where
  "addCandidate sender nm = call (onlyAdmin sender (addCandidate_body nm))"

text \<open>
  The body of \<open>vote\<close>, statement by statement: the two guards, the two mapping writes,
  the checked increment and the event.
\<close>

definition vote_body :: "address \<Rightarrow> uint256 \<Rightarrow> VotingSystem \<Rightarrow> outcome" where
  "vote_body sender candidateIndex s =
     (if hasVoted s sender then (Inl AlreadyVoted, s)
      else if length (candidates s) \<le> unat candidateIndex
        then (Inl (InvalidCandidateIndex candidateIndex), s)
      else
        let s1 = s\<lparr>hasVoted := (hasVoted s)(sender := True)\<rparr>;
            s2 = s1\<lparr>voterToCandidate := (voterToCandidate s1)(sender := candidateIndex)\<rparr>;
            c = candidates s2 ! unat candidateIndex
        in if voteCount c = - 1 then (Inl (Panic 17), s2)
           else
             (Inr (VoteCast sender candidateIndex),
              s2\<lparr>candidates :=
                   (candidates s2)[unat candidateIndex := c\<lparr>voteCount := voteCount c + 1\<rparr>]\<rparr>))"

definition vote :: "address \<Rightarrow> uint256 \<Rightarrow> VotingSystem \<Rightarrow> outcome" where
  "vote sender candidateIndex = call (vote_body sender candidateIndex)"

subsection \<open>The view functions\<close>

definition getCandidates :: "VotingSystem \<Rightarrow> Candidate list" where
  "getCandidates s = candidates s"

text \<open>
  The loop of \<open>getWinner\<close>, with its three variables \<open>i\<close>, \<open>maxVotes\<close> and
  \<open>winnerIndex\<close>. The counter stays below the array length, so it is a natural number.
\<close>

function getWinner_loop :: "Candidate list \<Rightarrow> nat \<Rightarrow> uint256 \<Rightarrow> nat \<Rightarrow> nat" where
  "getWinner_loop cs i maxVotes winnerIndex =
     (if i < length cs then
        (if voteCount (cs ! i) > maxVotes
         then getWinner_loop cs (i + 1) (voteCount (cs ! i)) i
         else getWinner_loop cs (i + 1) maxVotes winnerIndex)
      else winnerIndex)"
  by pat_completeness auto
termination
  by (relation "measure (\<lambda>(cs, i, m, w). length cs - i)") auto

declare getWinner_loop.simps [simp del]

definition getWinner :: "VotingSystem \<Rightarrow> error + string" where
  "getWinner s =
     (if length (candidates s) = 0 then Inl NoCandidates
      else Inr (name (candidates s ! getWinner_loop (candidates s) 0 0 0)))"

definition getCandidateCount :: "VotingSystem \<Rightarrow> uint256" where
  "getCandidateCount s = of_nat (length (candidates s))"

definition hasAddressVoted :: "VotingSystem \<Rightarrow> address \<Rightarrow> bool" where
  "hasAddressVoted s voter = hasVoted s voter"

subsection \<open>Transactions in sequence\<close>

text \<open>
  A transaction is a call of one of the two state-changing functions together with its
  \<open>msg.sender\<close>. Transactions are executed one after the other; a reverted one leaves
  the storage as it found it.
\<close>

datatype tx_call = AddCandidate string | Vote uint256

type_synonym tx = "address \<times> tx_call"

fun exec :: "tx \<Rightarrow> VotingSystem \<Rightarrow> outcome" where
  "exec (sender, AddCandidate nm) s = addCandidate sender nm s"
| "exec (sender, Vote candidateIndex) s = vote sender candidateIndex s"

fun run :: "tx list \<Rightarrow> VotingSystem \<Rightarrow> VotingSystem" where
  "run [] s = s"
| "run (t # ts) s = run ts (snd (exec t s))"

fun results :: "tx list \<Rightarrow> VotingSystem \<Rightarrow> (error + event) list" where
  "results [] s = []"
| "results (t # ts) s = fst (exec t s) # results ts (snd (exec t s))"

text \<open>
  What a list of results says: whether a result is a successful vote of the address \<open>v\<close>,
  and the candidate indices announced by the \<open>CandidateAdded\<close> events, in order.
\<close>

fun is_vote_by :: "address \<Rightarrow> error + event \<Rightarrow> bool" where
  "is_vote_by v (Inr (VoteCast a i)) = (a = v)"
| "is_vote_by v (Inr (CandidateAdded i nm)) = False"
| "is_vote_by v (Inl e) = False"

fun added_indices :: "(error + event) list \<Rightarrow> uint256 list" where
  "added_indices [] = []"
| "added_indices (Inr (CandidateAdded i nm) # rs) = i # added_indices rs"
| "added_indices (Inr (VoteCast a i) # rs) = added_indices rs"
| "added_indices (Inl e # rs) = added_indices rs"

text \<open>
  The vote records of a storage: the addresses marked in \<open>hasVoted\<close>, each with the index in
  \<open>voterToCandidate\<close>. \<open>votes_for s i\<close> is the set of voters recorded for candidate \<open>i\<close>.
\<close>

definition votes_for :: "VotingSystem \<Rightarrow> nat \<Rightarrow> address set" where
  "votes_for s i = {a. hasVoted s a \<and> unat (voterToCandidate s a) = i}"

definition tally_inv :: "VotingSystem \<Rightarrow> bool" where
  "tally_inv s \<longleftrightarrow>
     (\<forall>a. hasVoted s a \<longrightarrow> unat (voterToCandidate s a) < length (candidates s)) \<and>
     (\<forall>i<length (candidates s). unat (voteCount (candidates s ! i)) = card (votes_for s i))"

subsection \<open>Reads in sequence\<close>

text \<open>
  The four view functions are called without a transaction. A call returns the value of the
  function, or its revert, and the storage it was run on: a \<open>view\<close> function has no write.
\<close>

datatype query = GetCandidates | GetWinner | GetCandidateCount | HasAddressVoted address

datatype answer = Candidates "Candidate list" | Winner string | Count uint256 | Voted bool

fun staticcall :: "query \<Rightarrow> VotingSystem \<Rightarrow> (error + answer) \<times> VotingSystem" where
  "staticcall GetCandidates s = (Inr (Candidates (getCandidates s)), s)"
| "staticcall GetWinner s =
     (case getWinner s of Inl e \<Rightarrow> (Inl e, s) | Inr nm \<Rightarrow> (Inr (Winner nm), s))"
| "staticcall GetCandidateCount s = (Inr (Count (getCandidateCount s)), s)"
| "staticcall (HasAddressVoted voter) s = (Inr (Voted (hasAddressVoted s voter)), s)"

fun queries :: "query list \<Rightarrow> VotingSystem \<Rightarrow> (error + answer) list \<times> VotingSystem" where
  "queries [] s = ([], s)"
| "queries (q # qs) s =
     (case staticcall q s of (r, s1) \<Rightarrow>
        (case queries qs s1 of (rs, s2) \<Rightarrow> (r # rs, s2)))"

subsection \<open>The request validator\<close>

text \<open>
  \<open>validateAddCandidate\<close> of \<open>backend/middleware/validator.js\<close> runs on \<open>req.body.name\<close>
  before the route sends the transaction. A JavaScript string is a sequence of UTF-16 code
  units, and \<open>length\<close> counts them; any other value (\<open>undefined\<close>, a number, ...) fails
  \<open>typeof name !== 'string'\<close>, and the empty string fails \<open>!name\<close>. \<open>trim\<close> removes the white
  space and line terminators of ECMAScript from both ends. The validator either answers
  with status 400 and a message or calls \<open>next()\<close>.
\<close>

datatype js_value = JSString "16 word list" | JSOther

datatype response = Next | Status400 string

definition js_whitespace :: "16 word \<Rightarrow> bool" where
  "js_whitespace c \<longleftrightarrow>
     c \<in> {0x9, 0xA, 0xB, 0xC, 0xD, 0x20, 0xA0, 0x1680, 0x2028, 0x2029, 0x202F, 0x205F,
          0x3000, 0xFEFF} \<or>
     (0x2000 \<le> c \<and> c \<le> 0x200A)"

definition trim :: "16 word list \<Rightarrow> 16 word list" where
  "trim u = rev (dropWhile js_whitespace (rev (dropWhile js_whitespace u)))"

definition validateAddCandidate :: "js_value \<Rightarrow> response" where
  "validateAddCandidate nm =
     (case nm of
        JSOther \<Rightarrow> Status400 ''Candidate name is required and must be a string''
      | JSString u \<Rightarrow>
          if u = [] then Status400 ''Candidate name is required and must be a string''
          else if length (trim u) = 0 then Status400 ''Candidate name cannot be empty''
          else if length u > 100 then Status400 ''Candidate name too long (max 100 characters)''
          else Next)"

section \<open>The cases of the two transactions\<close>

lemma vote_AlreadyVoted:
  "hasVoted s sender \<Longrightarrow> vote sender i s = (Inl AlreadyVoted, s)"
  by (simp add: vote_def call_def vote_body_def)

lemma vote_InvalidCandidateIndex:
  "\<not> hasVoted s sender \<Longrightarrow> length (candidates s) \<le> unat i \<Longrightarrow>
     vote sender i s = (Inl (InvalidCandidateIndex i), s)"
  by (simp add: vote_def call_def vote_body_def)

lemma vote_Panic:
  "\<not> hasVoted s sender \<Longrightarrow> unat i < length (candidates s) \<Longrightarrow>
   voteCount (candidates s ! unat i) = - 1 \<Longrightarrow>
     vote sender i s = (Inl (Panic 17), s)"
  by (simp add: vote_def call_def vote_body_def Let_def)

lemma vote_VoteCast:
  "\<not> hasVoted s sender \<Longrightarrow> unat i < length (candidates s) \<Longrightarrow>
   voteCount (candidates s ! unat i) \<noteq> - 1 \<Longrightarrow>
     vote sender i s =
       (Inr (VoteCast sender i),
        s\<lparr>hasVoted := (hasVoted s)(sender := True),
          voterToCandidate := (voterToCandidate s)(sender := i),
          candidates := (candidates s)
            [unat i := (candidates s ! unat i)\<lparr>voteCount := voteCount (candidates s ! unat i) + 1\<rparr>]\<rparr>)"
  by (simp add: vote_def call_def vote_body_def Let_def)

lemma vote_success_cases:
  assumes "vote sender i s = (Inr ev, s')"
  shows "\<not> hasVoted s sender \<and> unat i < length (candidates s) \<and>
         voteCount (candidates s ! unat i) \<noteq> - 1"
proof -
  have "\<not> hasVoted s sender"
    using assms vote_AlreadyVoted [of s sender i] by auto
  moreover have "unat i < length (candidates s)"
    using assms calculation vote_InvalidCandidateIndex [of s sender i]
    by (cases "unat i < length (candidates s)") auto
  moreover have "voteCount (candidates s ! unat i) \<noteq> - 1"
    using assms calculation vote_Panic [of s sender i] by auto
  ultimately show ?thesis by simp
qed

lemma addCandidate_Unauthorized:
  "sender \<noteq> admin s \<Longrightarrow> addCandidate sender nm s = (Inl Unauthorized, s)"
  by (simp add: addCandidate_def call_def onlyAdmin_def)

lemma addCandidate_EmptyCandidateName:
  "sender = admin s \<Longrightarrow> nm = [] \<Longrightarrow> addCandidate sender nm s = (Inl EmptyCandidateName, s)"
  by (simp add: addCandidate_def call_def onlyAdmin_def addCandidate_body_def)

lemma addCandidate_CandidateAdded:
  "sender = admin s \<Longrightarrow> nm \<noteq> [] \<Longrightarrow>
     addCandidate sender nm s =
       (Inr (CandidateAdded (of_nat (length (candidates s))) nm),
        s\<lparr>candidates := candidates s @ [\<lparr>name = nm, voteCount = 0\<rparr>]\<rparr>)"
  by (simp add: addCandidate_def call_def onlyAdmin_def addCandidate_body_def Let_def)

lemma unat_voteCount_incr:
  fixes x :: uint256
  assumes "x \<noteq> - 1"
  shows "unat (x + 1) = unat x + 1"
proof -
  have "1 + x \<noteq> 0" using assms by (simp add: add_eq_0_iff)
  then have "unat (1 + x) = Suc (unat x)" by (rule unatSuc)
  then show ?thesis by (simp add: add.commute)
qed

text \<open>The definitions that evaluate a transaction on a concrete storage.\<close>

lemmas tx_defs = vote_def call_def vote_body_def addCandidate_def onlyAdmin_def
  addCandidate_body_def constructor_def Let_def

text \<open>
  Every transaction either reverts and keeps the storage, or adds a candidate, or casts a
  vote; the two successful cases with the storage they produce.
\<close>

lemma exec_cases:
  obtains (revert) e where "exec t s = (Inl e, s)"
  | (added) nm where "t = (admin s, AddCandidate nm)" "nm \<noteq> []"
      "exec t s = (Inr (CandidateAdded (of_nat (length (candidates s))) nm),
          s\<lparr>candidates := candidates s @ [\<lparr>name = nm, voteCount = 0\<rparr>]\<rparr>)"
  | (voted) sender i where "t = (sender, Vote i)" "\<not> hasVoted s sender"
      "unat i < length (candidates s)" "voteCount (candidates s ! unat i) \<noteq> - 1"
      "exec t s = (Inr (VoteCast sender i),
        s\<lparr>hasVoted := (hasVoted s)(sender := True),
          voterToCandidate := (voterToCandidate s)(sender := i),
          candidates := (candidates s)
            [unat i := (candidates s ! unat i)\<lparr>voteCount := voteCount (candidates s ! unat i) + 1\<rparr>]\<rparr>)"
proof (cases t)
  case (Pair sender c)
  show ?thesis
  proof (cases c)
    case (AddCandidate nm)
    show ?thesis
    proof (cases "sender = admin s \<and> nm \<noteq> []")
      case True
      then show ?thesis
        using added [of nm] Pair AddCandidate addCandidate_CandidateAdded [of sender s nm] by simp
    next
      case False
      then show ?thesis
        using revert Pair AddCandidate addCandidate_Unauthorized [of sender s nm]
          addCandidate_EmptyCandidateName [of sender s nm] by (cases "sender = admin s") auto
    qed
  next
    case (Vote i)
    show ?thesis
    proof (cases "\<not> hasVoted s sender \<and> unat i < length (candidates s) \<and> voteCount (candidates s ! unat i) \<noteq> - 1")
      case True
      then show ?thesis
        using voted [of sender i] Pair Vote vote_VoteCast [of s sender i] by simp
    next
      case False
      then show ?thesis
        using revert Pair Vote vote_AlreadyVoted [of s sender i]
          vote_InvalidCandidateIndex [of s sender i] vote_Panic [of s sender i]
        by (cases "hasVoted s sender"; cases "unat i < length (candidates s)") auto
    qed
  qed
qed

lemma exec_hasVoted_mono: "hasVoted s v \<Longrightarrow> hasVoted (snd (exec t s)) v"
  by (cases t s rule: exec_cases) auto

lemma run_hasVoted_mono: "hasVoted s v \<Longrightarrow> hasVoted (run txs s) v"
  by (induction txs arbitrary: s) (auto simp: exec_hasVoted_mono)

lemma exec_is_vote_by:
  "is_vote_by v (fst (exec t s)) \<longleftrightarrow> \<not> hasVoted s v \<and> hasVoted (snd (exec t s)) v"
  by (cases t s rule: exec_cases) auto

lemma count_votes_by:
  "length (filter (is_vote_by v) (results txs s)) =
     (if \<not> hasVoted s v \<and> hasVoted (run txs s) v then 1 else 0)"
proof (induction txs arbitrary: s)
  case Nil
  then show ?case by simp
next
  case (Cons t txs)
  show ?case
  proof (cases "is_vote_by v (fst (exec t s))")
    case True
    then have "\<not> hasVoted s v" "hasVoted (snd (exec t s)) v"
      by (simp_all add: exec_is_vote_by)
    then show ?thesis
      using True Cons.IH [of "snd (exec t s)"] run_hasVoted_mono [of "snd (exec t s)" v txs]
      by simp
  next
    case False
    then have "hasVoted (snd (exec t s)) v \<longrightarrow> hasVoted s v"
      by (auto simp: exec_is_vote_by)
    then show ?thesis
      using False Cons.IH [of "snd (exec t s)"] exec_hasVoted_mono [of s v t]
        run_hasVoted_mono [of "snd (exec t s)" v txs]
      by auto
  qed
qed

section \<open>The tally invariant\<close>

text \<open>
  Every recorded vote points into the candidate array, and every \<open>voteCount\<close> is the number
  of voters recorded for its index. The deployed contract satisfies this and every
  transaction keeps it.
\<close>

lemma votes_for_added [simp]:
  "votes_for (s\<lparr>candidates := cs\<rparr>) k = votes_for s k"
  by (simp add: votes_for_def)

lemma votes_for_voted:
  "\<not> hasVoted s sender \<Longrightarrow>
   votes_for (s\<lparr>hasVoted := (hasVoted s)(sender := True),
               voterToCandidate := (voterToCandidate s)(sender := i)\<rparr>) k =
     (if k = unat i then insert sender (votes_for s k) else votes_for s k)"
  by (auto simp: votes_for_def)

lemma tally_inv_constructor: "tally_inv (constructor d)"
  by (simp add: tally_inv_def constructor_def)

lemma tally_inv_exec:
  assumes "tally_inv s"
  shows "tally_inv (snd (exec t s))"
proof (cases t s rule: exec_cases)
  case (revert e)
  with assms show ?thesis by simp
next
  case (added nm)
  from assms have r: "\<forall>a. hasVoted s a \<longrightarrow> unat (voterToCandidate s a) < length (candidates s)"
    and c: "\<forall>i<length (candidates s). unat (voteCount (candidates s ! i)) = card (votes_for s i)"
    by (simp_all add: tally_inv_def)
  from r have e: "votes_for s (length (candidates s)) = {}"
    by (auto simp: votes_for_def)
  show ?thesis
    unfolding added(3) tally_inv_def
    using r c e by (auto simp: nth_append less_Suc_eq)
next
  case (voted sender i)
  from assms have r: "\<forall>a. hasVoted s a \<longrightarrow> unat (voterToCandidate s a) < length (candidates s)"
    and c: "\<forall>i<length (candidates s). unat (voteCount (candidates s ! i)) = card (votes_for s i)"
    by (simp_all add: tally_inv_def)
  have n: "sender \<notin> votes_for s (unat i)"
    using voted(2) by (simp add: votes_for_def)
  have "card (insert sender (votes_for s (unat i))) = Suc (card (votes_for s (unat i)))"
    using n by simp
  then show ?thesis
    unfolding voted(5) tally_inv_def
    using r c voted(2,3,4)
    by (auto simp: votes_for_voted nth_list_update unat_voteCount_incr)
qed

lemma tally_inv_run: "tally_inv s \<Longrightarrow> tally_inv (run txs s)"
  by (induction txs arbitrary: s) (auto simp: tally_inv_exec)

text \<open>
  There are \<open>2 ^ 160\<close> addresses, so under the invariant no \<open>voteCount\<close> is at the maximum of
  \<open>uint256\<close>: the checked increment of \<open>vote\<close> does not panic.
\<close>


lemma card_votes_for_bound: "card (votes_for s i) \<le> 2 ^ 160"
proof -
  have "card (votes_for s i) \<le> card (UNIV :: address set)"
    by (rule card_mono) simp_all
  then show ?thesis by (simp add: card_word)
qed

lemma tally_inv_no_overflow:
  assumes "tally_inv s" and "i < length (candidates s)"
  shows "voteCount (candidates s ! i) \<noteq> - 1"
proof
  assume "voteCount (candidates s ! i) = - 1"
  then have "unat (voteCount (candidates s ! i)) = 2 ^ 256 - 1"
    by (simp add: unsigned_minus_1_eq_mask mask_eq_exp_minus_1)
  moreover have "unat (voteCount (candidates s ! i)) \<le> 2 ^ 160"
    using assms card_votes_for_bound [of s i] by (simp add: tally_inv_def)
  ultimately show False by simp
qed

section \<open>Reads\<close>

lemma staticcall_storage: "snd (staticcall q s) = s"
  by (cases q) (simp_all split: sum.splits)

section \<open>The loop of getWinner\<close>

text \<open>
  The invariant of the loop before iteration \<open>i\<close>: \<open>maxVotes\<close> bounds the counts seen so far,
  and either nothing has been selected yet (\<open>maxVotes\<close> and \<open>winnerIndex\<close> are still 0) or
  \<open>winnerIndex\<close> is the first index that holds \<open>maxVotes\<close>.
\<close>

lemma getWinner_loop_inv:
  assumes "i \<le> length cs" and "cs \<noteq> []"
    and "\<forall>j<i. voteCount (cs ! j) \<le> m"
    and "(m = 0 \<and> w = 0) \<or> (w < i \<and> voteCount (cs ! w) = m \<and> (\<forall>j<w. voteCount (cs ! j) < m))"
  shows "getWinner_loop cs i m w < length cs \<and>
         (\<forall>j<length cs. voteCount (cs ! j) \<le> voteCount (cs ! getWinner_loop cs i m w)) \<and>
         (\<forall>j<getWinner_loop cs i m w. voteCount (cs ! j) < voteCount (cs ! getWinner_loop cs i m w))"
  using assms
proof (induction cs i m w rule: getWinner_loop.induct)
  case (1 cs i maxVotes winnerIndex)
  show ?case
  proof (cases "i < length cs")
    case False
    with "1.prems" have il: "i = length cs" by simp
    have r: "getWinner_loop cs i maxVotes winnerIndex = winnerIndex"
      using False by (simp add: getWinner_loop.simps)
    from "1.prems"(4) show ?thesis
    proof
      assume z: "maxVotes = 0 \<and> winnerIndex = 0"
      with "1.prems"(3) il have "\<forall>j<length cs. voteCount (cs ! j) = 0" by simp
      with z r "1.prems"(2) show ?thesis by simp
    next
      assume "winnerIndex < i \<and> voteCount (cs ! winnerIndex) = maxVotes \<and>
        (\<forall>j<winnerIndex. voteCount (cs ! j) < maxVotes)"
      with r il "1.prems"(3) show ?thesis by simp
    qed
  next
    case True
    show ?thesis
    proof (cases "voteCount (cs ! i) > maxVotes")
      case gt: True
      have r: "getWinner_loop cs i maxVotes winnerIndex = getWinner_loop cs (i + 1) (voteCount (cs ! i)) i"
        using True gt by (subst getWinner_loop.simps) simp
      have a: "\<forall>j<i + 1. voteCount (cs ! j) \<le> voteCount (cs ! i)"
        using "1.prems"(3) gt by (auto simp: less_Suc_eq)
      have b: "\<forall>j<i. voteCount (cs ! j) < voteCount (cs ! i)"
        using "1.prems"(3) gt by auto
      show ?thesis
        unfolding r
        by (rule "1.IH"(1) [OF True gt]) (use True "1.prems"(2) a b in auto)
    next
      case le: False
      have r: "getWinner_loop cs i maxVotes winnerIndex = getWinner_loop cs (i + 1) maxVotes winnerIndex"
        using True le by (subst getWinner_loop.simps) simp
      have a: "\<forall>j<i + 1. voteCount (cs ! j) \<le> maxVotes"
        using "1.prems"(3) le by (auto simp: less_Suc_eq)
      show ?thesis
        unfolding r
        by (rule "1.IH"(2) [OF True le]) (use True "1.prems" a in auto)
    qed
  qed
qed

lemma getWinner_loop_start:
  assumes "cs \<noteq> []"
  shows "getWinner_loop cs 0 0 0 < length cs \<and>
         (\<forall>j<length cs. voteCount (cs ! j) \<le> voteCount (cs ! getWinner_loop cs 0 0 0)) \<and>
         (\<forall>j<getWinner_loop cs 0 0 0. voteCount (cs ! j) < voteCount (cs ! getWinner_loop cs 0 0 0))"
  by (rule getWinner_loop_inv) (use assms in simp_all)

section \<open>Events of a sequence of transactions\<close>

lemma added_indices_results:
  "length (candidates s) \<le> length (candidates (run txs s)) \<and>
   added_indices (results txs s) =
     map of_nat [length (candidates s)..<length (candidates (run txs s))]"
proof (induction txs arbitrary: s)
  case Nil
  show ?case by simp
next
  case (Cons t txs)
  show ?case
  proof (cases t s rule: exec_cases)
    case (revert e)
    then show ?thesis using Cons [of s] by simp
  next
    case (added nm)
    let ?s' = "s\<lparr>candidates := candidates s @ [\<lparr>name = nm, voteCount = 0\<rparr>]\<rparr>"
    have l: "length (candidates ?s') = Suc (length (candidates s))" by simp
    from Cons [of ?s'] l
    have le: "Suc (length (candidates s)) \<le> length (candidates (run txs ?s'))"
      and ix: "added_indices (results txs ?s') =
        map of_nat [Suc (length (candidates s))..<length (candidates (run txs ?s'))]"
      by simp_all
    have "[length (candidates s)..<length (candidates (run txs ?s'))] =
        length (candidates s) # [Suc (length (candidates s))..<length (candidates (run txs ?s'))]"
      using le by (simp add: upt_conv_Cons)
    then show ?thesis
      using le ix by (simp add: added(3))
  next
    case (voted sender i)
    then show ?thesis
      using Cons [of "snd (exec t s)"] by simp
  qed
qed

lemma map_unat_of_nat_upt:
  "n \<le> 2 ^ 256 \<Longrightarrow> map unat (map (of_nat :: nat \<Rightarrow> uint256) [m..<n]) = [m..<n]"
proof -
  assume n: "n \<le> 2 ^ 256"
  have "\<forall>k\<in>set [m..<n]. unat (of_nat k :: uint256) = k"
    using n by (auto simp: unat_of_nat)
  then have "map (\<lambda>k. unat (of_nat k :: uint256)) [m..<n] = map (\<lambda>k. k) [m..<n]"
    by (intro map_cong) simp_all
  then show ?thesis by (simp add: comp_def)
qed

lemma admin_adds:
  "\<forall>nm\<in>set nms. nm \<noteq> [] \<Longrightarrow>
   results (map (\<lambda>nm. (admin s, AddCandidate nm)) nms) s =
     map (\<lambda>(k, nm). Inr (CandidateAdded (of_nat k) nm)) (enumerate (length (candidates s)) nms) \<and>
   run (map (\<lambda>nm. (admin s, AddCandidate nm)) nms) s =
     s\<lparr>candidates := candidates s @ map (\<lambda>nm. \<lparr>name = nm, voteCount = 0\<rparr>) nms\<rparr>"
proof (induction nms arbitrary: s)
  case Nil
  show ?case by simp
next
  case (Cons nm nms)
  let ?s' = "s\<lparr>candidates := candidates s @ [\<lparr>name = nm, voteCount = 0\<rparr>]\<rparr>"
  have ne: "nm \<noteq> []" using Cons.prems by simp
  have st: "addCandidate (admin s) nm s =
      (Inr (CandidateAdded (of_nat (length (candidates s))) nm), ?s')"
    using ne by (simp add: addCandidate_CandidateAdded)
  have ih: "results (map (\<lambda>nm. (admin ?s', AddCandidate nm)) nms) ?s' =
     map (\<lambda>(k, nm). Inr (CandidateAdded (of_nat k) nm)) (enumerate (length (candidates ?s')) nms) \<and>
   run (map (\<lambda>nm. (admin ?s', AddCandidate nm)) nms) ?s' =
     ?s'\<lparr>candidates := candidates ?s' @ map (\<lambda>nm. \<lparr>name = nm, voteCount = 0\<rparr>) nms\<rparr>"
    using Cons.prems by (intro Cons.IH) simp
  show ?case
    using ih by (simp add: st)
qed

lemma vote_under_tally_inv:
  assumes "tally_inv s" and "\<not> hasVoted s sender" and "unat i < length (candidates s)"
  shows "vote sender i s =
       (Inr (VoteCast sender i),
        s\<lparr>hasVoted := (hasVoted s)(sender := True),
          voterToCandidate := (voterToCandidate s)(sender := i),
          candidates := (candidates s)
            [unat i := (candidates s ! unat i)\<lparr>voteCount := voteCount (candidates s ! unat i) + 1\<rparr>]\<rparr>)"
  using assms(2,3) tally_inv_no_overflow [OF assms(1,3)] by (rule vote_VoteCast)

section \<open>Authorization\<close>

text \<open>
  C8: \<open>addCandidate\<close> called by any address other than the admin reverts with
  \<open>Unauthorized\<close>, for every name and every storage; the body has written nothing when it
  reverts, and the transaction leaves the whole storage (candidates and vote records) as
  it was.
\<close>

theorem addCandidate_non_admin_Unauthorized:
  "sender \<noteq> admin s \<Longrightarrow>
     addCandidate sender nm s = (Inl Unauthorized, s) \<and>
     onlyAdmin sender (addCandidate_body nm) s = (Inl Unauthorized, s)"
  by (simp add: addCandidate_def call_def onlyAdmin_def)

theorem addCandidate_non_admin_Unauthorized_witness:
  "(2 :: address) \<noteq> admin (constructor 1) \<and>
   addCandidate 2 ''Alice'' (constructor 1) = (Inl Unauthorized, constructor 1) \<and>
   onlyAdmin 2 (addCandidate_body ''Alice'') (constructor 1) = (Inl Unauthorized, constructor 1)"
  using addCandidate_non_admin_Unauthorized [of 2 "constructor 1" "''Alice''"]
  by (simp add: constructor_def)

text \<open>
  C2 as the specification states it: \<open>addCandidate\<close> with the empty name fails with
  \<open>EmptyCandidateName\<close> whoever calls. The modifier \<open>onlyAdmin\<close> runs before the body, so
  for a caller other than the admin the error is \<open>Unauthorized\<close>.
\<close>

theorem addCandidate_empty_name_non_admin_counterexample:
  "fst (addCandidate 2 '''' (constructor 1)) = Inl Unauthorized \<and>
   fst (addCandidate 2 '''' (constructor 1)) \<noteq> Inl EmptyCandidateName"
  by (simp add: tx_defs)

text \<open>
  C2, amended: \<open>addCandidate\<close> with the empty name reverts for every caller and leaves the
  storage unchanged, with nothing written before the revert; the error is
  \<open>EmptyCandidateName\<close> when the caller is the admin and \<open>Unauthorized\<close> otherwise.
\<close>

theorem addCandidate_empty_name:
  "addCandidate sender '''' s =
     (Inl (if sender = admin s then EmptyCandidateName else Unauthorized), s) \<and>
   onlyAdmin sender (addCandidate_body '''') s =
     (Inl (if sender = admin s then EmptyCandidateName else Unauthorized), s)"
  by (simp add: addCandidate_def call_def onlyAdmin_def addCandidate_body_def)

theorem addCandidate_empty_name_witness:
  "addCandidate 1 [] (constructor 1) = (Inl EmptyCandidateName, constructor 1) \<and>
   addCandidate 2 [] (constructor 1) = (Inl Unauthorized, constructor 1)"
  using addCandidate_empty_name [of 1 "constructor 1"] addCandidate_empty_name [of 2 "constructor 1"]
  by (simp add: constructor_def)

section \<open>Names the core accepts\<close>

text \<open>
  The validator in front of the route lets a name through only if it is a string that is
  not blank after trimming and has at most 100 code units; it rejects a name of 101
  letters and a name of three spaces.
\<close>

lemma trim_whitespace:
  assumes "\<forall>c\<in>set u. js_whitespace c"
  shows "trim u = []"
proof -
  have d: "dropWhile js_whitespace u = []" using assms by simp
  show ?thesis unfolding trim_def d by simp
qed

lemma validateAddCandidate_Next:
  "validateAddCandidate nm = Next \<longleftrightarrow>
     (\<exists>u. nm = JSString u \<and> trim u \<noteq> [] \<and> length u \<le> 100)"
  by (cases nm) (auto simp: validateAddCandidate_def trim_def)

lemma validateAddCandidate_rejects:
  "validateAddCandidate (JSString (replicate 101 0x61)) =
     Status400 ''Candidate name too long (max 100 characters)''"
  "validateAddCandidate (JSString [0x20, 0x20, 0x20]) =
     Status400 ''Candidate name cannot be empty''"
  by (simp_all add: validateAddCandidate_def trim_def js_whitespace_def)

text \<open>
  C10: called by the admin, \<open>addCandidate\<close> succeeds for every name of at least one byte.
  The body compares the byte length with zero and looks at nothing else, so a name of more
  than 100 characters and a name of spaces only are both registered.
\<close>

theorem addCandidate_admin_nonempty:
  "nm \<noteq> [] \<Longrightarrow>
     addCandidate (admin s) nm s =
       (Inr (CandidateAdded (of_nat (length (candidates s))) nm),
        s\<lparr>candidates := candidates s @ [\<lparr>name = nm, voteCount = 0\<rparr>]\<rparr>)"
  by (simp add: addCandidate_CandidateAdded)

theorem addCandidate_admin_nonempty_witness:
  "replicate 101 CHR ''a'' \<noteq> [] \<and> length (replicate 101 CHR ''a'') = 101 \<and>
   addCandidate 1 (replicate 101 CHR ''a'') (constructor 1) =
     (Inr (CandidateAdded 0 (replicate 101 CHR ''a'')),
      (constructor 1)\<lparr>candidates := [\<lparr>name = replicate 101 CHR ''a'', voteCount = 0\<rparr>]\<rparr>) \<and>
   ''   '' \<noteq> [] \<and>
   addCandidate 1 ''   '' (constructor 1) =
     (Inr (CandidateAdded 0 ''   ''),
      (constructor 1)\<lparr>candidates := [\<lparr>name = ''   '', voteCount = 0\<rparr>]\<rparr>)"
proof -
  have a: "replicate 101 CHR ''a'' \<noteq> []" by simp
  have b: "''   '' \<noteq> []" by simp
  have c: "admin (constructor 1) = 1" "candidates (constructor 1) = []"
    by (simp_all add: constructor_def)
  show ?thesis
    using a b addCandidate_admin_nonempty [OF a, of "constructor 1"]
      addCandidate_admin_nonempty [OF b, of "constructor 1"]
    by (simp add: c)
qed

section \<open>The guards of vote\<close>

text \<open>
  C3: \<open>vote\<close> checks first whether the caller has voted, and reverts with \<open>AlreadyVoted\<close>
  for every index, in range or not; then it checks the index, and reverts with
  \<open>InvalidCandidateIndex(index)\<close> when the index is not below the number of candidates,
  also when there are none. In both cases the body has written nothing and the transaction
  leaves the storage as it was.
\<close>

theorem vote_guards_in_order:
  "(hasVoted s sender \<longrightarrow>
      vote_body sender i s = (Inl AlreadyVoted, s) \<and> vote sender i s = (Inl AlreadyVoted, s)) \<and>
   (\<not> hasVoted s sender \<and> length (candidates s) \<le> unat i \<longrightarrow>
      vote_body sender i s = (Inl (InvalidCandidateIndex i), s) \<and>
      vote sender i s = (Inl (InvalidCandidateIndex i), s))"
  by (simp add: vote_def call_def vote_body_def)

theorem vote_guards_in_order_witness:
  "hasVoted (snd (vote 2 0 (snd (addCandidate 1 ''Alice'' (constructor 1))))) 2 \<and>
   vote 2 9 (snd (vote 2 0 (snd (addCandidate 1 ''Alice'' (constructor 1))))) =
     (Inl AlreadyVoted, snd (vote 2 0 (snd (addCandidate 1 ''Alice'' (constructor 1))))) \<and>
   \<not> hasVoted (constructor 1) 2 \<and> length (candidates (constructor 1)) \<le> unat (0 :: uint256) \<and>
   vote 2 0 (constructor 1) = (Inl (InvalidCandidateIndex 0), constructor 1)"
proof -
  have a: "hasVoted (snd (vote 2 0 (snd (addCandidate 1 ''Alice'' (constructor 1))))) 2"
    by (simp add: tx_defs)
  have b: "\<not> hasVoted (constructor 1) 2 \<and> length (candidates (constructor 1)) \<le> unat (0 :: uint256)"
    by (simp add: constructor_def)
  show ?thesis
    using a b
      vote_guards_in_order [of "snd (vote 2 0 (snd (addCandidate 1 ''Alice'' (constructor 1))))" 2 9]
      vote_guards_in_order [of "constructor 1" 2 0]
    by blast
qed

section \<open>The view functions are pure reads\<close>

text \<open>
  C9: any sequence of calls of \<open>getCandidates\<close>, \<open>getWinner\<close>, \<open>getCandidateCount\<close> and
  \<open>hasAddressVoted\<close> leaves the storage unchanged, and every call in it returns what the
  same call returns on the storage at the start, so repeated calls give identical results.
  \<open>getCandidates\<close> never reverts and returns the candidates of the storage, in order.
\<close>

theorem reads_are_pure:
  "queries qs s = (map (\<lambda>q. fst (staticcall q s)) qs, s) \<and>
   staticcall GetCandidates s = (Inr (Candidates (candidates s)), s)"
proof
  show "queries qs s = (map (\<lambda>q. fst (staticcall q s)) qs, s)"
  proof (induction qs)
    case Nil
    show ?case by simp
  next
    case (Cons q qs)
    obtain r where "staticcall q s = (r, s)"
      using staticcall_storage [of q s] by (cases "staticcall q s") simp
    then show ?case using Cons by simp
  qed
  show "staticcall GetCandidates s = (Inr (Candidates (candidates s)), s)"
    by (simp add: getCandidates_def)
qed

section \<open>One vote per address\<close>

text \<open>
  C4: for every address \<open>v\<close> and every sequence of transactions, run from any storage, at
  most one vote of \<open>v\<close> succeeds. After a successful vote of \<open>v\<close>, and after any further
  transactions, every vote of \<open>v\<close> reverts with \<open>AlreadyVoted\<close> whatever its index, and the
  storage (hence every \<open>voteCount\<close>) stays as it is. From the deployed contract, \<open>v\<close> has a
  vote record exactly when one vote of \<open>v\<close> succeeded, so no address has two.
\<close>

theorem one_vote_per_address:
  "length (filter (is_vote_by v) (results txs s)) \<le> 1 \<and>
   (vote v i s = (Inr ev, s1) \<longrightarrow>
      vote v j (run txs s1) = (Inl AlreadyVoted, run txs s1)) \<and>
   length (filter (is_vote_by v) (results txs (constructor d))) =
     (if hasVoted (run txs (constructor d)) v then 1 else 0)"
proof (intro conjI impI)
  show "length (filter (is_vote_by v) (results txs s)) \<le> 1"
    by (simp add: count_votes_by)
next
  assume a: "vote v i s = (Inr ev, s1)"
  have g: "\<not> hasVoted s v" "unat i < length (candidates s)"
    "voteCount (candidates s ! unat i) \<noteq> - 1"
    using vote_success_cases [OF a] by simp_all
  from a vote_VoteCast [OF g] have "hasVoted s1 v" by auto
  then have "hasVoted (run txs s1) v" by (rule run_hasVoted_mono)
  then show "vote v j (run txs s1) = (Inl AlreadyVoted, run txs s1)"
    by (rule vote_AlreadyVoted)
next
  show "length (filter (is_vote_by v) (results txs (constructor d))) =
     (if hasVoted (run txs (constructor d)) v then 1 else 0)"
    by (simp add: count_votes_by) (simp add: constructor_def)
qed

theorem one_vote_per_address_witness:
  "vote 2 0 (run [(1, AddCandidate ''Alice'')] (constructor 1)) =
     (Inr (VoteCast 2 0),
      \<lparr>admin = 1, candidates = [\<lparr>name = ''Alice'', voteCount = 1\<rparr>],
       hasVoted = (\<lambda>_. False)(2 := True), voterToCandidate = (\<lambda>_. 0)(2 := 0)\<rparr>) \<and>
   length (filter (is_vote_by 2)
     (results [(2, Vote 0), (2, Vote 0), (2, Vote 7)]
        (run [(1, AddCandidate ''Alice'')] (constructor 1)))) \<le> 1 \<and>
   vote 2 5 (run [(2, Vote 0), (2, Vote 0), (2, Vote 7)]
      \<lparr>admin = 1, candidates = [\<lparr>name = ''Alice'', voteCount = 1\<rparr>],
       hasVoted = (\<lambda>_. False)(2 := True), voterToCandidate = (\<lambda>_. 0)(2 := 0)\<rparr>) =
     (Inl AlreadyVoted, run [(2, Vote 0), (2, Vote 0), (2, Vote 7)]
      \<lparr>admin = 1, candidates = [\<lparr>name = ''Alice'', voteCount = 1\<rparr>],
       hasVoted = (\<lambda>_. False)(2 := True), voterToCandidate = (\<lambda>_. 0)(2 := 0)\<rparr>)"
proof -
  have h: "vote 2 0 (run [(1, AddCandidate ''Alice'')] (constructor 1)) =
     (Inr (VoteCast 2 0),
      \<lparr>admin = 1, candidates = [\<lparr>name = ''Alice'', voteCount = 1\<rparr>],
       hasVoted = (\<lambda>_. False)(2 := True), voterToCandidate = (\<lambda>_. 0)(2 := 0)\<rparr>)"
    by (simp add: vote_def call_def vote_body_def addCandidate_def onlyAdmin_def
        addCandidate_body_def constructor_def Let_def)
  show ?thesis
    using h one_vote_per_address [where v = 2 and txs = "[(2, Vote 0), (2, Vote 0), (2, Vote 7)]"
        and s = "run [(1, AddCandidate ''Alice'')] (constructor 1)" and i = 0
        and ev = "VoteCast 2 0" and j = 5
        and ?s1.0 = "\<lparr>admin = 1, candidates = [\<lparr>name = ''Alice'', voteCount = 1\<rparr>],
       hasVoted = (\<lambda>_. False)(2 := True), voterToCandidate = (\<lambda>_. 0)(2 := 0)\<rparr>"]
    by blast
qed

section \<open>Vote counts and vote records\<close>

text \<open>
  C6: in every storage reached from the deployed contract by any sequence of
  \<open>addCandidate\<close> and \<open>vote\<close> transactions, for every index \<open>i\<close> of the candidate array,
  \<open>candidates[i].voteCount\<close> is the number of addresses whose vote record is \<open>i\<close>.
\<close>

theorem voteCount_counts_records:
  "i < length (candidates (run txs (constructor d))) \<Longrightarrow>
     unat (voteCount (candidates (run txs (constructor d)) ! i)) =
       card {a. hasVoted (run txs (constructor d)) a \<and>
                unat (voterToCandidate (run txs (constructor d)) a) = i}"
  using tally_inv_run [OF tally_inv_constructor, of txs d]
  by (simp add: tally_inv_def votes_for_def)

theorem voteCount_counts_records_witness:
  "0 < length (candidates (run [(1, AddCandidate ''Alice''), (1, AddCandidate ''Bob''),
          (2, Vote 0), (3, Vote 0), (4, Vote 1)] (constructor 1))) \<and>
   unat (voteCount (candidates (run [(1, AddCandidate ''Alice''), (1, AddCandidate ''Bob''),
          (2, Vote 0), (3, Vote 0), (4, Vote 1)] (constructor 1)) ! 0)) = 2 \<and>
   card {a. hasVoted (run [(1, AddCandidate ''Alice''), (1, AddCandidate ''Bob''),
          (2, Vote 0), (3, Vote 0), (4, Vote 1)] (constructor 1)) a \<and>
        unat (voterToCandidate (run [(1, AddCandidate ''Alice''), (1, AddCandidate ''Bob''),
          (2, Vote 0), (3, Vote 0), (4, Vote 1)] (constructor 1)) a) = 0} = 2"
proof -
  have r: "run [(1, AddCandidate ''Alice''), (1, AddCandidate ''Bob''),
          (2, Vote 0), (3, Vote 0), (4, Vote 1)] (constructor 1) =
       \<lparr>admin = 1,
        candidates = [\<lparr>name = ''Alice'', voteCount = 2\<rparr>, \<lparr>name = ''Bob'', voteCount = 1\<rparr>],
        hasVoted = (\<lambda>_. False)(2 := True, 3 := True, 4 := True),
        voterToCandidate = (\<lambda>_. 0)(2 := 0, 3 := 0, 4 := 1)\<rparr>"
    by (simp add: tx_defs)
  show ?thesis
    using voteCount_counts_records [of 0 "[(1, AddCandidate ''Alice''), (1, AddCandidate ''Bob''),
          (2, Vote 0), (3, Vote 0), (4, Vote 1)]" 1]
    unfolding r by simp
qed

section \<open>The winner\<close>

text \<open>
  C1: \<open>getWinner\<close> reverts with \<open>NoCandidates\<close> exactly when there is no candidate. Otherwise
  it returns the name of the candidate at an index \<open>w\<close> whose \<open>voteCount\<close> is maximal and
  strictly above the count of every earlier candidate: among equal counts the earliest
  index wins. When every count is 0 the winner is the candidate at index 0.
\<close>

theorem getWinner_earliest_maximum:
  "(getWinner s = Inl NoCandidates \<longleftrightarrow> candidates s = []) \<and>
   (candidates s \<noteq> [] \<longrightarrow>
      (\<exists>w<length (candidates s).
         getWinner s = Inr (name (candidates s ! w)) \<and>
         (\<forall>j<length (candidates s). voteCount (candidates s ! j) \<le> voteCount (candidates s ! w)) \<and>
         (\<forall>j<w. voteCount (candidates s ! j) < voteCount (candidates s ! w)))) \<and>
   (candidates s \<noteq> [] \<and> (\<forall>c\<in>set (candidates s). voteCount c = 0) \<longrightarrow>
      getWinner s = Inr (name (candidates s ! 0)))"
proof (intro conjI impI)
  show "getWinner s = Inl NoCandidates \<longleftrightarrow> candidates s = []"
    by (simp add: getWinner_def)
next
  assume ne: "candidates s \<noteq> []"
  have "getWinner s = Inr (name (candidates s ! getWinner_loop (candidates s) 0 0 0))"
    using ne by (simp add: getWinner_def)
  then show "\<exists>w<length (candidates s).
         getWinner s = Inr (name (candidates s ! w)) \<and>
         (\<forall>j<length (candidates s). voteCount (candidates s ! j) \<le> voteCount (candidates s ! w)) \<and>
         (\<forall>j<w. voteCount (candidates s ! j) < voteCount (candidates s ! w))"
    using getWinner_loop_start [OF ne] by blast
next
  assume a: "candidates s \<noteq> [] \<and> (\<forall>c\<in>set (candidates s). voteCount c = 0)"
  then have ne: "candidates s \<noteq> []" by simp
  let ?w = "getWinner_loop (candidates s) 0 0 0"
  have w: "?w < length (candidates s)"
    and e: "\<forall>j<?w. voteCount (candidates s ! j) < voteCount (candidates s ! ?w)"
    using getWinner_loop_start [OF ne] by simp_all
  have "voteCount (candidates s ! ?w) = 0"
    using a w by simp
  with e have "?w = 0" by (cases "?w") auto
  then show "getWinner s = Inr (name (candidates s ! 0))"
    using ne by (simp add: getWinner_def)
qed

theorem getWinner_earliest_maximum_witness:
  "getWinner (constructor 1) = Inl NoCandidates \<and>
   getWinner \<lparr>admin = 1,
       candidates = [\<lparr>name = ''A'', voteCount = 1\<rparr>, \<lparr>name = ''B'', voteCount = 1\<rparr>],
       hasVoted = (\<lambda>_. False)(2 := True, 3 := True),
       voterToCandidate = (\<lambda>_. 0)(2 := 0, 3 := 1)\<rparr> = Inr ''A'' \<and>
   getWinner \<lparr>admin = 1,
       candidates = [\<lparr>name = ''A'', voteCount = 0\<rparr>, \<lparr>name = ''B'', voteCount = 0\<rparr>],
       hasVoted = (\<lambda>_. False), voterToCandidate = (\<lambda>_. 0)\<rparr> = Inr ''A''"
proof -
  let ?s = "\<lparr>admin = 1,
       candidates = [\<lparr>name = ''A'', voteCount = 1\<rparr>, \<lparr>name = ''B'', voteCount = 1\<rparr>],
       hasVoted = (\<lambda>_. False)(2 := True, 3 := True),
       voterToCandidate = (\<lambda>_. 0)(2 := 0, 3 := 1)\<rparr>"
  let ?z = "\<lparr>admin = 1,
       candidates = [\<lparr>name = ''A'', voteCount = 0\<rparr>, \<lparr>name = ''B'', voteCount = 0\<rparr>],
       hasVoted = (\<lambda>_. False), voterToCandidate = (\<lambda>_. 0)\<rparr>"
  have "candidates (constructor 1) = []" by (simp add: constructor_def)
  with getWinner_earliest_maximum [of "constructor 1"]
  have a: "getWinner (constructor 1) = Inl NoCandidates" by blast
  have ne: "candidates ?s \<noteq> []" by simp
  from getWinner_earliest_maximum [of ?s] ne
  obtain w where w: "w < length (candidates ?s)"
    and g: "getWinner ?s = Inr (name (candidates ?s ! w))"
    and e: "\<forall>j<w. voteCount (candidates ?s ! j) < voteCount (candidates ?s ! w)"
    by blast
  have "w = 0"
  proof (rule ccontr)
    assume "w \<noteq> 0"
    with w have "w = 1" by simp
    with e [rule_format, of 0] show False by simp
  qed
  with g have b: "getWinner ?s = Inr ''A''" by simp
  have "candidates ?z \<noteq> [] \<and> (\<forall>c\<in>set (candidates ?z). voteCount c = 0)" by simp
  with getWinner_earliest_maximum [of ?z]
  have "getWinner ?z = Inr (name (candidates ?z ! 0))" by blast
  then have c: "getWinner ?z = Inr ''A''" by simp
  from a b c show ?thesis by blast
qed

section \<open>The effect of a successful vote\<close>

text \<open>
  C7: a successful \<open>vote(i)\<close> of \<open>sender\<close> raises \<open>candidates[i].voteCount\<close> by exactly 1,
  without wrap-around, and records \<open>i\<close> for \<open>sender\<close>. The name of candidate \<open>i\<close>, every
  other candidate, the number of candidates, the admin and the records of every other
  address are unchanged.
\<close>

theorem vote_success_frame:
  assumes "vote sender i s = (Inr ev, s')"
  shows "ev = VoteCast sender i \<and>
         unat i < length (candidates s) \<and>
         unat (voteCount (candidates s' ! unat i)) = unat (voteCount (candidates s ! unat i)) + 1 \<and>
         name (candidates s' ! unat i) = name (candidates s ! unat i) \<and>
         hasVoted s' sender \<and> voterToCandidate s' sender = i \<and>
         length (candidates s') = length (candidates s) \<and>
         (\<forall>j. j \<noteq> unat i \<longrightarrow> candidates s' ! j = candidates s ! j) \<and>
         admin s' = admin s \<and>
         (\<forall>a. a \<noteq> sender \<longrightarrow>
            hasVoted s' a = hasVoted s a \<and> voterToCandidate s' a = voterToCandidate s a)"
proof -
  from assms have g: "\<not> hasVoted s sender" "unat i < length (candidates s)"
    "voteCount (candidates s ! unat i) \<noteq> - 1"
    using vote_success_cases by blast+
  from assms vote_VoteCast [OF g] have ev: "ev = VoteCast sender i"
    and s': "s' = s\<lparr>hasVoted := (hasVoted s)(sender := True),
          voterToCandidate := (voterToCandidate s)(sender := i),
          candidates := (candidates s)
            [unat i := (candidates s ! unat i)\<lparr>voteCount := voteCount (candidates s ! unat i) + 1\<rparr>]\<rparr>"
    by simp_all
  show ?thesis
    using g ev by (simp add: s' unat_voteCount_incr)
qed

theorem vote_success_frame_witness:
  "vote 2 0 (snd (addCandidate 1 ''Alice'' (constructor 1))) =
     (Inr (VoteCast 2 0),
      \<lparr>admin = 1, candidates = [\<lparr>name = ''Alice'', voteCount = 1\<rparr>],
       hasVoted = (\<lambda>_. False)(2 := True), voterToCandidate = (\<lambda>_. 0)(2 := 0)\<rparr>) \<and>
   unat (voteCount (candidates (snd (vote 2 0 (snd (addCandidate 1 ''Alice'' (constructor 1))))) ! 0)) =
     unat (voteCount (candidates (snd (addCandidate 1 ''Alice'' (constructor 1))) ! 0)) + 1"
proof -
  have h: "vote 2 0 (snd (addCandidate 1 ''Alice'' (constructor 1))) =
     (Inr (VoteCast 2 0),
      \<lparr>admin = 1, candidates = [\<lparr>name = ''Alice'', voteCount = 1\<rparr>],
       hasVoted = (\<lambda>_. False)(2 := True), voterToCandidate = (\<lambda>_. 0)(2 := 0)\<rparr>)"
    by (simp add: tx_defs)
  show ?thesis
    using h vote_success_frame [OF h] by simp
qed

section \<open>Candidate indices\<close>

text \<open>
  C5: a successful \<open>addCandidate\<close> appends \<open>{name, voteCount: 0}\<close> and announces the previous
  length of the array as the index. From the deployed contract, the admin's calls with
  non-empty names all succeed, the \<open>k\<close>-th of them (counting from 0) with index \<open>k\<close>; and in
  any sequence of transactions, whatever else it contains, the announced indices are
  \<open>0, 1, 2, ...\<close> up to the final number of candidates, with no gap and no repetition.
\<close>

theorem addCandidate_index:
  "(addCandidate sender nm s = (Inr ev, s') \<longrightarrow>
      ev = CandidateAdded (of_nat (length (candidates s))) nm \<and>
      s' = s\<lparr>candidates := candidates s @ [\<lparr>name = nm, voteCount = 0\<rparr>]\<rparr>) \<and>
   ((\<forall>nm\<in>set nms. nm \<noteq> []) \<longrightarrow>
      results (map (\<lambda>nm. (d, AddCandidate nm)) nms) (constructor d) =
        map (\<lambda>(k, nm). Inr (CandidateAdded (of_nat k) nm)) (enumerate 0 nms) \<and>
      candidates (run (map (\<lambda>nm. (d, AddCandidate nm)) nms) (constructor d)) =
        map (\<lambda>nm. \<lparr>name = nm, voteCount = 0\<rparr>) nms) \<and>
   added_indices (results txs (constructor d)) =
     map of_nat [0..<length (candidates (run txs (constructor d)))] \<and>
   (length (candidates (run txs (constructor d))) \<le> 2 ^ 256 \<longrightarrow>
      map unat (added_indices (results txs (constructor d))) =
        [0..<length (candidates (run txs (constructor d)))])"
proof (intro conjI impI)
  assume a: "addCandidate sender nm s = (Inr ev, s')"
  have "sender = admin s"
    using a addCandidate_Unauthorized [of sender s nm] by auto
  moreover have "nm \<noteq> []"
    using a calculation addCandidate_EmptyCandidateName [of sender s nm] by auto
  ultimately have "addCandidate sender nm s =
       (Inr (CandidateAdded (of_nat (length (candidates s))) nm),
        s\<lparr>candidates := candidates s @ [\<lparr>name = nm, voteCount = 0\<rparr>]\<rparr>)"
    by (rule addCandidate_CandidateAdded)
  with a show "ev = CandidateAdded (of_nat (length (candidates s))) nm"
    and "s' = s\<lparr>candidates := candidates s @ [\<lparr>name = nm, voteCount = 0\<rparr>]\<rparr>"
    by simp_all
next
  assume n: "\<forall>nm\<in>set nms. nm \<noteq> []"
  have c: "admin (constructor d) = d" "candidates (constructor d) = []"
    by (simp_all add: constructor_def)
  from admin_adds [OF n, of "constructor d"]
  show "results (map (\<lambda>nm. (d, AddCandidate nm)) nms) (constructor d) =
        map (\<lambda>(k, nm). Inr (CandidateAdded (of_nat k) nm)) (enumerate 0 nms)"
    and "candidates (run (map (\<lambda>nm. (d, AddCandidate nm)) nms) (constructor d)) =
        map (\<lambda>nm. \<lparr>name = nm, voteCount = 0\<rparr>) nms"
    by (simp_all add: c)
next
  have c: "candidates (constructor d) = []" by (simp add: constructor_def)
  show i: "added_indices (results txs (constructor d)) =
     map of_nat [0..<length (candidates (run txs (constructor d)))]"
    using added_indices_results [of "constructor d" txs] by (simp add: c)
  assume "length (candidates (run txs (constructor d))) \<le> 2 ^ 256"
  then show "map unat (added_indices (results txs (constructor d))) =
        [0..<length (candidates (run txs (constructor d)))]"
    unfolding i by (rule map_unat_of_nat_upt)
qed

theorem addCandidate_index_witness:
  "addCandidate 1 ''Alice'' (constructor 1) =
     (Inr (CandidateAdded 0 ''Alice''),
      \<lparr>admin = 1, candidates = [\<lparr>name = ''Alice'', voteCount = 0\<rparr>],
       hasVoted = (\<lambda>_. False), voterToCandidate = (\<lambda>_. 0)\<rparr>) \<and>
   results [(1, AddCandidate ''Alice''), (1, AddCandidate ''Bob''), (1, AddCandidate ''Charlie'')]
       (constructor 1) =
     [Inr (CandidateAdded 0 ''Alice''), Inr (CandidateAdded 1 ''Bob''),
      Inr (CandidateAdded 2 ''Charlie'')] \<and>
   candidates (run [(1, AddCandidate ''Alice''), (1, AddCandidate ''Bob''),
       (1, AddCandidate ''Charlie'')] (constructor 1)) =
     [\<lparr>name = ''Alice'', voteCount = 0\<rparr>, \<lparr>name = ''Bob'', voteCount = 0\<rparr>,
      \<lparr>name = ''Charlie'', voteCount = 0\<rparr>] \<and>
   length (candidates (run [(1, AddCandidate ''Alice''), (2, Vote 0), (1, AddCandidate []),
       (3, AddCandidate ''Eve''), (1, AddCandidate ''Bob'')] (constructor 1))) \<le> 2 ^ 256 \<and>
   map unat (added_indices (results [(1, AddCandidate ''Alice''), (2, Vote 0),
       (1, AddCandidate []), (3, AddCandidate ''Eve''), (1, AddCandidate ''Bob'')]
       (constructor 1))) = [0, 1]"
proof -
  have a: "addCandidate 1 ''Alice'' (constructor 1) =
     (Inr (CandidateAdded 0 ''Alice''),
      \<lparr>admin = 1, candidates = [\<lparr>name = ''Alice'', voteCount = 0\<rparr>],
       hasVoted = (\<lambda>_. False), voterToCandidate = (\<lambda>_. 0)\<rparr>)"
    by (simp add: tx_defs)
  have h: "\<forall>nm\<in>set [''Alice'', ''Bob'', ''Charlie'']. nm \<noteq> []" by simp
  have r: "run [(1, AddCandidate ''Alice''), (2, Vote 0), (1, AddCandidate []),
       (3, AddCandidate ''Eve''), (1, AddCandidate ''Bob'')] (constructor 1) =
     \<lparr>admin = 1,
      candidates = [\<lparr>name = ''Alice'', voteCount = 1\<rparr>, \<lparr>name = ''Bob'', voteCount = 0\<rparr>],
      hasVoted = (\<lambda>_. False)(2 := True), voterToCandidate = (\<lambda>_. 0)(2 := 0)\<rparr>"
    by (simp add: tx_defs)
  have b: "results [(1, AddCandidate ''Alice''), (1, AddCandidate ''Bob''),
       (1, AddCandidate ''Charlie'')] (constructor 1) =
     [Inr (CandidateAdded 0 ''Alice''), Inr (CandidateAdded 1 ''Bob''),
      Inr (CandidateAdded 2 ''Charlie'')] \<and>
   candidates (run [(1, AddCandidate ''Alice''), (1, AddCandidate ''Bob''),
       (1, AddCandidate ''Charlie'')] (constructor 1)) =
     [\<lparr>name = ''Alice'', voteCount = 0\<rparr>, \<lparr>name = ''Bob'', voteCount = 0\<rparr>,
      \<lparr>name = ''Charlie'', voteCount = 0\<rparr>]"
    using h addCandidate_index [where nms = "[''Alice'', ''Bob'', ''Charlie'']" and d = 1]
    by (simp add: enumerate_eq_zip upt_rec)
  have c: "length (candidates (run [(1, AddCandidate ''Alice''), (2, Vote 0), (1, AddCandidate []),
       (3, AddCandidate ''Eve''), (1, AddCandidate ''Bob'')] (constructor 1))) \<le> 2 ^ 256 \<and>
   map unat (added_indices (results [(1, AddCandidate ''Alice''), (2, Vote 0),
       (1, AddCandidate []), (3, AddCandidate ''Eve''), (1, AddCandidate ''Bob'')]
       (constructor 1))) = [0, 1]"
    using addCandidate_index [where d = 1 and txs = "[(1, AddCandidate ''Alice''), (2, Vote 0),
       (1, AddCandidate []), (3, AddCandidate ''Eve''), (1, AddCandidate ''Bob'')]"]
    unfolding r by (simp add: upt_rec)
  from a b c show ?thesis by blast
qed

end
